theory Spec2Isabelle
  imports Main
begin

section \<open>Characters, \<open>cctype\<close> and the string conversions of the standard library\<close>

text \<open>
  A \<open>std::string\<close> is a \<^typ>\<open>string\<close>: a list of 8-bit characters. Arithmetic on a
  \<open>char\<close> first promotes it to \<open>int\<close>; \<open>char\<close> is taken as the signed 8-bit type of
  the usual x86-64 targets, so a byte above 127 promotes to a negative number. A result
  assigned or returned as \<open>char\<close> is narrowed modulo 256. For the ASCII characters the
  promoted value is the character code whatever the signedness.
\<close>

definition char_to_int :: "char \<Rightarrow> int" where
  "char_to_int c = (if (of_char c :: int) < 128 then of_char c else of_char c - 256)"

definition int_to_char :: "int \<Rightarrow> char" where
  "int_to_char n = char_of n"

text \<open>
  The classification functions in the "C" locale, on the promoted value. Bytes outside
  ASCII are in no class.
\<close>

definition isupper :: "char \<Rightarrow> bool" where
  "isupper c = (65 \<le> char_to_int c \<and> char_to_int c \<le> 90)"

definition islower :: "char \<Rightarrow> bool" where
  "islower c = (97 \<le> char_to_int c \<and> char_to_int c \<le> 122)"

definition isalpha :: "char \<Rightarrow> bool" where
  "isalpha c = (isupper c \<or> islower c)"

definition isdigit :: "char \<Rightarrow> bool" where
  "isdigit c = (48 \<le> char_to_int c \<and> char_to_int c \<le> 57)"

definition isspace :: "char \<Rightarrow> bool" where
  "isspace c = (char_to_int c = 32 \<or> (9 \<le> char_to_int c \<and> char_to_int c \<le> 13))"

text \<open>\<open>tolower\<close> takes and returns an \<open>int\<close>.\<close>

definition tolower :: "char \<Rightarrow> int" where
  "tolower c = (if isupper c then char_to_int c + 32 else char_to_int c)"

text \<open>
  The exceptional outcomes: the two exceptions of \<open>std::stoi\<close> and \<open>substr\<close>, and the
  remainder of a division by zero, which C++ leaves undefined.
\<close>

datatype failure = invalid_argument | out_of_range | modulo_by_zero

text \<open>\<open>std::to_string(int)\<close>: the decimal digits, after a minus sign for a negative number.\<close>

fun digits10 :: "nat \<Rightarrow> string" where
  "digits10 n = (if n < 10 then [int_to_char (48 + int n)]
                 else digits10 (n div 10) @ [int_to_char (48 + int (n mod 10))])"

declare digits10.simps [simp del]

definition to_string :: "int \<Rightarrow> string" where
  "to_string n = (if n < 0 then CHR ''-'' # digits10 (nat (- n)) else digits10 (nat n))"

text \<open>
  \<open>std::stoi(str)\<close> in base 10: leading white space is skipped, one sign is accepted, then
  the longest run of digits is read and whatever follows is ignored. No digit at all is
  \<open>std::invalid_argument\<close>, a value that does not fit a 32-bit \<open>int\<close> is
  \<open>std::out_of_range\<close>.
\<close>

definition stoi :: "string \<Rightarrow> failure + int" where
  "stoi str =
     (let s1 = dropWhile isspace str;
          neg = (s1 \<noteq> [] \<and> hd s1 = CHR ''-'');
          s2 = (if s1 \<noteq> [] \<and> (hd s1 = CHR ''-'' \<or> hd s1 = CHR ''+'') then tl s1 else s1);
          ds = takeWhile isdigit s2;
          v = foldl (\<lambda>a d. 10 * a + (char_to_int d - 48)) (0 :: int) ds;
          r = (if neg then - v else v)
      in if ds = [] then Inl invalid_argument
         else if r < - (2 ^ 31) \<or> 2 ^ 31 - 1 < r then Inl out_of_range
         else Inr r)"

text \<open>\<open>str.substr(pos, n)\<close>: \<open>std::out_of_range\<close> when \<open>pos\<close> is beyond the end.\<close>

definition substr :: "string \<Rightarrow> nat \<Rightarrow> nat \<Rightarrow> failure + string" where
  "substr str pos n = (if length str < pos then Inl out_of_range else Inr (take n (drop pos str)))"

text \<open>
  The remainder of C++ truncates towards zero: its sign is the sign of the dividend.
\<close>

definition c_rem :: "int \<Rightarrow> int \<Rightarrow> int" where
  "c_rem a b = sgn a * (\<bar>a\<bar> mod \<bar>b\<bar>)"

section \<open>The base class \<open>Encryption\<close>\<close>

record Encryption =
  message :: string
  encrypted_message :: string

definition setMessage :: "string \<Rightarrow> 'a Encryption_scheme \<Rightarrow> 'a Encryption_scheme" where
  "setMessage m s = s\<lparr>message := m\<rparr>"

definition getEncryptedMessage :: "'a Encryption_scheme \<Rightarrow> string" where
  "getEncryptedMessage s = encrypted_message s"

text \<open>\<open>encrypted_message += c\<close> and \<open>encrypted_message += str\<close>.\<close>

definition append_char :: "char \<Rightarrow> 'a Encryption_scheme \<Rightarrow> 'a Encryption_scheme" where
  "append_char c s = s\<lparr>encrypted_message := encrypted_message s @ [c]\<rparr>"

definition append_string :: "string \<Rightarrow> 'a Encryption_scheme \<Rightarrow> 'a Encryption_scheme" where
  "append_string str s = s\<lparr>encrypted_message := encrypted_message s @ str\<rparr>"

section \<open>\<open>Caesar\<close>\<close>

record Caesar = Encryption +
  key :: int

definition Caesar_setKey :: "int \<Rightarrow> Caesar \<Rightarrow> Caesar" where
  "Caesar_setKey k s = s\<lparr>key := c_rem (c_rem k 26 + 26) 26\<rparr>"

definition Caesar_encryptChar :: "Caesar \<Rightarrow> char \<Rightarrow> char" where
  "Caesar_encryptChar s c =
     (if isupper c then int_to_char ((char_to_int c - char_to_int CHR ''A'' + key s) + char_to_int CHR ''A'')
      else if islower c then int_to_char ((char_to_int c - char_to_int CHR ''a'' + key s) + char_to_int CHR ''a'')
      else c)"

definition Caesar_decryptChar :: "Caesar \<Rightarrow> char \<Rightarrow> char" where
  "Caesar_decryptChar s c =
     (if isupper c then int_to_char ((char_to_int c - char_to_int CHR ''A'' - key s) + char_to_int CHR ''A'')
      else if islower c then int_to_char ((char_to_int c - char_to_int CHR ''a'' - key s) + char_to_int CHR ''a'')
      else c)"

text \<open>The range-based \<open>for\<close> loops, as recursion over the characters still to be read.\<close>

primrec Caesar_encrypt_loop :: "string \<Rightarrow> Caesar \<Rightarrow> Caesar" where
  "Caesar_encrypt_loop [] s = s"
| "Caesar_encrypt_loop (c # cs) s =
     Caesar_encrypt_loop cs
       (if isalpha c then append_char (Caesar_encryptChar s c) s else append_char c s)"

definition Caesar_encrypt :: "Caesar \<Rightarrow> Caesar" where
  "Caesar_encrypt s = Caesar_encrypt_loop (message s) (s\<lparr>encrypted_message := []\<rparr>)"

primrec Caesar_decrypt_loop :: "string \<Rightarrow> Caesar \<Rightarrow> Caesar" where
  "Caesar_decrypt_loop [] s = s"
| "Caesar_decrypt_loop (c # cs) s =
     Caesar_decrypt_loop cs
       (if isalpha c then append_char (Caesar_decryptChar s c) s else append_char c s)"

definition Caesar_decrypt :: "Caesar \<Rightarrow> Caesar" where
  "Caesar_decrypt s = Caesar_decrypt_loop (message s) (s\<lparr>encrypted_message := []\<rparr>)"

section \<open>\<open>Vigenere\<close>\<close>

record Vigenere = Encryption +
  messageKey :: string

definition Vigenere_setKeyMessage :: "string \<Rightarrow> Vigenere \<Rightarrow> Vigenere" where
  "Vigenere_setKeyMessage n s = s\<lparr>messageKey := n\<rparr>"

definition Vigenere_encryptKeyChar :: "char \<Rightarrow> int" where
  "Vigenere_encryptKeyChar c =
     (if isupper c then char_to_int c - 65 + 1
      else if islower c then char_to_int c - 97 + 1
      else 0)"

text \<open>
  \<open>messageKey[i % size]\<close>: with an empty keyword \<open>size\<close> is 0 and the remainder is
  undefined; the model returns \<^const>\<open>modulo_by_zero\<close> there. The loop counters \<open>i\<close> and
  \<open>keyIndex\<close> are natural numbers: the \<open>int\<close> of the source holds them for every message
  shorter than \<open>2^31\<close> characters.
\<close>

definition key_at :: "Vigenere \<Rightarrow> nat \<Rightarrow> failure + char" where
  "key_at s i = (if length (messageKey s) = 0 then Inl modulo_by_zero
                 else Inr (messageKey s ! (i mod length (messageKey s))))"

definition Vigenere_encryptChar :: "Vigenere \<Rightarrow> char \<Rightarrow> nat \<Rightarrow> failure + char" where
  "Vigenere_encryptChar s c i =
     (if isupper c then
        (case key_at s i of Inl e \<Rightarrow> Inl e
         | Inr k \<Rightarrow> Inr (int_to_char (char_to_int c - char_to_int CHR ''A'' + Vigenere_encryptKeyChar k + char_to_int CHR ''A'')))
      else if islower c then
        (case key_at s i of Inl e \<Rightarrow> Inl e
         | Inr k \<Rightarrow> Inr (int_to_char (char_to_int c - char_to_int CHR ''a'' + Vigenere_encryptKeyChar k + char_to_int CHR ''a'')))
      else Inr c)"

definition Vigenere_decryptChar :: "Vigenere \<Rightarrow> char \<Rightarrow> nat \<Rightarrow> failure + char" where
  "Vigenere_decryptChar s c k =
     (case key_at s k of Inl e \<Rightarrow> Inl e
      | Inr letter \<Rightarrow>
          (let shift = (if isupper letter then char_to_int letter - char_to_int CHR ''A''
                        else char_to_int letter - char_to_int CHR ''a'') + 1
           in if isupper c then
                Inr (int_to_char (c_rem (char_to_int c - char_to_int CHR ''A'' - shift + 26) 26 + char_to_int CHR ''A''))
              else if islower c then
                Inr (int_to_char (c_rem (char_to_int c - char_to_int CHR ''a'' - shift + 26) 26 + char_to_int CHR ''a''))
              else Inr c))"

primrec Vigenere_encrypt_loop :: "string \<Rightarrow> nat \<Rightarrow> Vigenere \<Rightarrow> failure + Vigenere" where
  "Vigenere_encrypt_loop [] i s = Inr s"
| "Vigenere_encrypt_loop (c # cs) i s =
     (if isalpha c then
        (case Vigenere_encryptChar s c i of Inl e \<Rightarrow> Inl e
         | Inr d \<Rightarrow> Vigenere_encrypt_loop cs (i + 1) (append_char d s))
      else Vigenere_encrypt_loop cs (i + 1) (append_char c s))"

definition Vigenere_encrypt :: "Vigenere \<Rightarrow> failure + Vigenere" where
  "Vigenere_encrypt s = Vigenere_encrypt_loop (message s) 0 (s\<lparr>encrypted_message := []\<rparr>)"

primrec Vigenere_decrypt_loop :: "string \<Rightarrow> nat \<Rightarrow> Vigenere \<Rightarrow> failure + Vigenere" where
  "Vigenere_decrypt_loop [] keyIndex s = Inr s"
| "Vigenere_decrypt_loop (c # cs) keyIndex s =
     (if isalpha c then
        (case Vigenere_decryptChar s c keyIndex of Inl e \<Rightarrow> Inl e
         | Inr d \<Rightarrow> Vigenere_decrypt_loop cs (keyIndex + 1) (append_char d s))
      else Vigenere_decrypt_loop cs (keyIndex + 1) (append_char c s))"

definition Vigenere_decrypt :: "Vigenere \<Rightarrow> failure + Vigenere" where
  "Vigenere_decrypt s = Vigenere_decrypt_loop (message s) 0 (s\<lparr>encrypted_message := []\<rparr>)"

section \<open>\<open>Atbash\<close>\<close>

text \<open>\<open>Atbash\<close> and \<open>A1Z26\<close> add no field to the base class.\<close>

definition Atbash_encryptChar :: "char \<Rightarrow> char" where
  "Atbash_encryptChar c =
     (if isupper c then int_to_char (90 - (char_to_int c - 65))
      else if islower c then int_to_char (122 - (char_to_int c - 97))
      else c)"

primrec Atbash_encrypt_loop :: "string \<Rightarrow> Encryption \<Rightarrow> Encryption" where
  "Atbash_encrypt_loop [] s = s"
| "Atbash_encrypt_loop (c # cs) s =
     Atbash_encrypt_loop cs
       (if isalpha c then append_char (Atbash_encryptChar c) s else append_char c s)"

definition Atbash_encrypt :: "Encryption \<Rightarrow> Encryption" where
  "Atbash_encrypt s = Atbash_encrypt_loop (message s) s"

definition Atbash_decrypt :: "Encryption \<Rightarrow> Encryption" where
  "Atbash_decrypt s = Atbash_encrypt s"

section \<open>\<open>A1Z26\<close>\<close>

definition A1Z26_encryptChar :: "char \<Rightarrow> string" where
  "A1Z26_encryptChar c0 =
     (let c1 = int_to_char (tolower c0);
          c = int_to_char (char_to_int c1 - 96)
      in if char_to_int c < 10 then CHR ''0'' # to_string (char_to_int c)
         else to_string (char_to_int c))"

primrec A1Z26_encrypt_loop :: "string \<Rightarrow> Encryption \<Rightarrow> Encryption" where
  "A1Z26_encrypt_loop [] s = s"
| "A1Z26_encrypt_loop (c # cs) s =
     A1Z26_encrypt_loop cs
       (if isalpha c then append_string (A1Z26_encryptChar c) s
        else if isdigit c then append_char (int_to_char (char_to_int c + 48)) s
        else append_char c s)"

definition A1Z26_encrypt :: "Encryption \<Rightarrow> Encryption" where
  "A1Z26_encrypt s = A1Z26_encrypt_loop (message s) s"

text \<open>
  The index loop of \<open>decrypt\<close>: \<open>substr(i++, 2)\<close> together with the \<open>++i\<close> of the loop
  moves the index by two after a digit.
\<close>

function A1Z26_decrypt_loop :: "nat \<Rightarrow> Encryption \<Rightarrow> failure + Encryption" where
  "A1Z26_decrypt_loop i s =
     (if i < length (message s) then
        (if isdigit (message s ! i) then
           (case substr (message s) i 2 of Inl e \<Rightarrow> Inl e
            | Inr num_str \<Rightarrow>
               (case stoi num_str of Inl e \<Rightarrow> Inl e
                | Inr num \<Rightarrow>
                    A1Z26_decrypt_loop (i + 2)
                      (append_char (int_to_char (char_to_int CHR ''a'' + num - 1)) s)))
         else if isalpha (message s ! i) then
           A1Z26_decrypt_loop (i + 1) (append_string (to_string (tolower (message s ! i) - 96)) s)
         else A1Z26_decrypt_loop (i + 1) (append_char (message s ! i) s))
      else Inr s)"
  by pat_completeness auto
termination
  by (relation "measure (\<lambda>(i, s). length (message s) - i)")
     (auto simp: append_char_def append_string_def)

declare A1Z26_decrypt_loop.simps [simp del]

definition A1Z26_decrypt :: "Encryption \<Rightarrow> failure + Encryption" where
  "A1Z26_decrypt s = A1Z26_decrypt_loop 0 s"

text \<open>A default-constructed object of the base class: both strings empty.\<close>

definition Encryption_new :: Encryption where
  "Encryption_new = \<lparr>message = [], encrypted_message = []\<rparr>"

text \<open>
  A default-constructed \<open>Caesar\<close> has an indeterminate \<open>key\<close> until \<open>setKey\<close> is called;
  the model starts it at 0. The keyword of a default-constructed \<open>Vigenere\<close> is empty.
\<close>

definition Caesar_new :: Caesar where
  "Caesar_new = \<lparr>message = [], encrypted_message = [], key = 0\<rparr>"

definition Vigenere_new :: Vigenere where
  "Vigenere_new = \<lparr>message = [], encrypted_message = [], messageKey = []\<rparr>"

text \<open>
  The lower-case form of a message, as the specification uses it: \<open>tolower\<close> on every
  character.
\<close>

definition lowercase :: "string \<Rightarrow> string" where
  "lowercase L = map (\<lambda>c. int_to_char (tolower c)) L"

section \<open>Promotion and narrowing of characters\<close>

lemma of_char_int_range: "0 \<le> (of_char c :: int) \<and> (of_char c :: int) < 256"
proof -
  have "0 \<le> (of_char c :: int) mod 256" by (rule pos_mod_sign) simp
  moreover have "(of_char c :: int) mod 256 < 256" by (rule pos_mod_bound) simp
  ultimately show ?thesis unfolding of_char_mod_256 by (rule conjI)
qed

lemma char_to_int_range: "- 128 \<le> char_to_int c \<and> char_to_int c \<le> 127"
  using of_char_int_range [of c] by (simp add: char_to_int_def)

lemma int_to_char_char_to_int [simp]: "int_to_char (char_to_int c) = c"
proof -
  have "take_bit 8 (of_char c - 256 :: int) = of_char c"
    by (simp add: take_bit_eq_mod)
  then show ?thesis
    by (simp add: char_to_int_def int_to_char_def char_of_eq_iff take_bit_eq_mod)
qed

lemma mod_256_negative:
  fixes n :: int
  assumes "- 128 \<le> n" and "n < 0"
  shows "n mod 256 = n + 256"
proof -
  from assms have "(n + 256) mod 256 = n + 256" by (intro mod_pos_pos_trivial) simp_all
  moreover have "(n + 256) mod 256 = n mod 256" by (rule mod_add_self2)
  ultimately show ?thesis by (simp only:)
qed

lemma char_to_int_int_to_char:
  assumes "- 128 \<le> n" and "n \<le> 127"
  shows "char_to_int (int_to_char n) = n"
proof (cases "0 \<le> n")
  case True
  with assms have "n mod 256 = n" by simp
  with True assms show ?thesis by (simp add: char_to_int_def int_to_char_def)
next
  case False
  with assms have "n mod 256 = n + 256" by (intro mod_256_negative) simp_all
  with False assms show ?thesis by (simp add: char_to_int_def int_to_char_def)
qed

lemma char_eq_iff_promoted: "c = d \<longleftrightarrow> char_to_int c = char_to_int d"
proof
  assume "char_to_int c = char_to_int d"
  then have "int_to_char (char_to_int c) = int_to_char (char_to_int d)" by (rule arg_cong)
  then show "c = d" by simp
qed simp

section \<open>The truncating remainder\<close>

lemma c_rem_26: "c_rem a 26 = (if 0 \<le> a then a mod 26 else - ((- a) mod 26))"
  by (simp add: c_rem_def sgn_if)

lemma c_rem_norm: "c_rem (c_rem k 26 + 26) 26 = k mod 26"
proof (cases "0 \<le> k")
  case True
  then show ?thesis by (simp add: c_rem_26)
next
  case False
  define r where "r = (- k) mod 26"
  have r: "0 \<le> r" "r < 26" by (simp_all add: r_def)
  have "k mod 26 = (- r) mod 26" by (simp add: r_def mod_minus_eq)
  also have "\<dots> = (- r + 26) mod 26" by simp
  finally have "k mod 26 = (- r + 26) mod 26" .
  moreover have "c_rem k 26 = - r" using False by (simp add: c_rem_26 r_def)
  moreover have "c_rem (- r + 26) 26 = (- r + 26) mod 26" using r by (simp add: c_rem_26)
  ultimately show ?thesis by simp
qed

section \<open>\<open>Caesar\<close>: key normalisation and the missing reduction\<close>

text \<open>
  Inside \<open>setKey\<close> the first remainder lies in \<open>[-25, 25]\<close> and the sum in \<open>[1, 51]\<close>:
  no step can leave the range of a 32-bit \<open>int\<close>, so the integers of the model compute what
  the machine integers do for every key that an \<open>int\<close> can hold.
\<close>

lemma c_rem_26_bounds: "- 25 \<le> c_rem k 26 \<and> c_rem k 26 \<le> 25"
proof (cases "0 \<le> k")
  case True
  have b: "0 \<le> k mod 26" "k mod 26 < 26" by simp_all
  from True have "c_rem k 26 = k mod 26" by (simp add: c_rem_26)
  with b show ?thesis by linarith
next
  case False
  have b: "0 \<le> (- k) mod 26" "(- k) mod 26 < 26" by simp_all
  from False have "c_rem k 26 = - ((- k) mod 26)" by (simp add: c_rem_26)
  with b show ?thesis by linarith
qed

lemma Caesar_setKey_key: "key (Caesar_setKey k s) = k mod 26"
  by (simp add: Caesar_setKey_def c_rem_norm)

lemma Caesar_setKey_plus_26: "Caesar_setKey (k + 26) s = Caesar_setKey k s"
  by (simp add: Caesar_setKey_def c_rem_norm)

text \<open>
  Claim C8. After \<open>setKey(k)\<close> the stored key is \<open>((k mod 26) + 26) mod 26\<close> for the
  mathematical \<open>mod\<close>, it lies in \<open>[0, 25]\<close> for every \<open>k\<close>, negative or above 25, and
  encrypting a message with the key \<open>k\<close> gives the same result as with the key \<open>k + 26\<close>.
\<close>

theorem Caesar_setKey_normalizes:
  "key (Caesar_setKey k s) = ((k mod 26) + 26) mod 26
   \<and> 0 \<le> key (Caesar_setKey k s) \<and> key (Caesar_setKey k s) \<le> 25
   \<and> getEncryptedMessage (Caesar_encrypt (Caesar_setKey k (setMessage M s))) =
     getEncryptedMessage (Caesar_encrypt (Caesar_setKey (k + 26) (setMessage M s)))"
proof -
  have "key (Caesar_setKey k s) = ((k mod 26) + 26) mod 26"
    by (simp add: Caesar_setKey_key)
  moreover have "0 \<le> key (Caesar_setKey k s)" "key (Caesar_setKey k s) \<le> 25"
    using pos_mod_bound [of 26 k] by (simp_all add: Caesar_setKey_key)
  moreover have "Caesar_setKey (k + 26) (setMessage M s) = Caesar_setKey k (setMessage M s)"
    by (rule Caesar_setKey_plus_26)
  ultimately show ?thesis by simp
qed

theorem Caesar_setKey_normalizes_witness:
  "key (Caesar_setKey (- 3) Caesar_new) = 23
   \<and> getEncryptedMessage (Caesar_encrypt (Caesar_setKey (- 3) (setMessage ''abc'' Caesar_new))) = ''xyz''
   \<and> getEncryptedMessage (Caesar_encrypt (Caesar_setKey 23 (setMessage ''abc'' Caesar_new))) = ''xyz''"
proof -
  have "getEncryptedMessage (Caesar_encrypt (Caesar_setKey 23 (setMessage ''abc'' Caesar_new))) = ''xyz''"
    by code_simp
  then show ?thesis
    using Caesar_setKey_normalizes [of "- 3" Caesar_new "''abc''"] by simp
qed

text \<open>
  Claim C2 says that the forward transform of \<open>Caesar\<close> reduces the shifted position modulo
  26, so that a letter always yields a letter of the same case. \<open>encryptChar\<close> returns
  \<open>(c - 'A' + key) + 'A'\<close> with no reduction: with the key 1 it sends \<open>Z\<close> to \<open>[\<close>, which is
  not a letter, where the reduced formula of the claim gives \<open>A\<close>; likewise \<open>z\<close> goes to
  \<open>{\<close>.
\<close>

theorem Caesar_encryptChar_no_wrap:
  "Caesar_encryptChar (Caesar_setKey 1 Caesar_new) CHR ''Z'' = CHR ''[''
   \<and> \<not> isalpha (Caesar_encryptChar (Caesar_setKey 1 Caesar_new) CHR ''Z'')
   \<and> int_to_char ((char_to_int CHR ''Z'' - char_to_int CHR ''A'' + key (Caesar_setKey 1 Caesar_new)) mod 26
        + char_to_int CHR ''A'') = CHR ''A''
   \<and> Caesar_encryptChar (Caesar_setKey 1 Caesar_new) CHR ''z'' = CHR ''{''"
  by code_simp

text \<open>
  Claim C1 says that decrypting an encrypted message with the same key returns the
  message. With the key 1 the message \<open>Z\<close> encrypts to \<open>[\<close>, and \<open>decrypt\<close> leaves \<open>[\<close> as it
  is, since it is not a letter.
\<close>

theorem Caesar_roundtrip_fails:
  "getEncryptedMessage (Caesar_encrypt (Caesar_setKey 1 (setMessage ''Z'' Caesar_new))) = ''[''
   \<and> getEncryptedMessage (Caesar_decrypt (Caesar_setKey 1 (setMessage
        (getEncryptedMessage (Caesar_encrypt (Caesar_setKey 1 (setMessage ''Z'' Caesar_new)))) Caesar_new))) = ''[''
   \<and> ''['' \<noteq> ''Z''"
  by code_simp

section \<open>\<open>Atbash\<close> is an involution\<close>

lemma Atbash_encryptChar_upper:
  assumes "isupper c"
  shows "char_to_int (Atbash_encryptChar c) = 155 - char_to_int c"
  using assms by (simp add: Atbash_encryptChar_def isupper_def char_to_int_int_to_char)

lemma Atbash_encryptChar_lower:
  assumes "islower c"
  shows "char_to_int (Atbash_encryptChar c) = 219 - char_to_int c"
  using assms by (simp add: Atbash_encryptChar_def isupper_def islower_def char_to_int_int_to_char)

lemma Atbash_encryptChar_other: "\<not> isalpha c \<Longrightarrow> Atbash_encryptChar c = c"
  by (simp add: Atbash_encryptChar_def isalpha_def)

lemma Atbash_encryptChar_involution: "Atbash_encryptChar (Atbash_encryptChar c) = c"
proof -
  consider "isupper c" | "islower c" | "\<not> isalpha c" by (auto simp: isalpha_def)
  then show ?thesis
  proof cases
    case 1
    then have v: "char_to_int (Atbash_encryptChar c) = 155 - char_to_int c"
      by (rule Atbash_encryptChar_upper)
    with 1 have "isupper (Atbash_encryptChar c)" by (simp add: isupper_def)
    then have "char_to_int (Atbash_encryptChar (Atbash_encryptChar c)) = 155 - (155 - char_to_int c)"
      using v by (simp add: Atbash_encryptChar_upper)
    then show ?thesis by (simp add: char_eq_iff_promoted)
  next
    case 2
    then have v: "char_to_int (Atbash_encryptChar c) = 219 - char_to_int c"
      by (rule Atbash_encryptChar_lower)
    with 2 have "islower (Atbash_encryptChar c)" by (simp add: islower_def)
    then have "char_to_int (Atbash_encryptChar (Atbash_encryptChar c)) = 219 - (219 - char_to_int c)"
      using v by (simp add: Atbash_encryptChar_lower)
    then show ?thesis by (simp add: char_eq_iff_promoted)
  next
    case 3
    then show ?thesis by (simp add: Atbash_encryptChar_other)
  qed
qed

lemma Atbash_encrypt_loop_eq:
  "Atbash_encrypt_loop cs s = s\<lparr>encrypted_message := encrypted_message s @ map Atbash_encryptChar cs\<rparr>"
proof (induction cs arbitrary: s)
  case Nil
  show ?case by simp
next
  case (Cons c cs)
  have "(if isalpha c then append_char (Atbash_encryptChar c) s else append_char c s)
        = append_char (Atbash_encryptChar c) s"
    by (simp add: Atbash_encryptChar_other)
  then show ?case by (simp add: Cons.IH append_char_def)
qed

lemma Atbash_encrypt_eq:
  "Atbash_encrypt s = s\<lparr>encrypted_message := encrypted_message s @ map Atbash_encryptChar (message s)\<rparr>"
  by (simp add: Atbash_encrypt_def Atbash_encrypt_loop_eq)

text \<open>
  Claim C7. On fresh \<open>Atbash\<close> objects, encrypting the encryption of a message \<open>M\<close> returns
  \<open>M\<close>. The transform maps every character on its own: an upper-case \<open>c\<close> to
  \<open>'Z' - (c - 'A')\<close>, a lower-case \<open>c\<close> to \<open>'z' - (c - 'a')\<close>, any other character to
  itself; and \<open>decrypt\<close> is the same operation as \<open>encrypt\<close>.
\<close>

theorem Atbash_involution:
  "getEncryptedMessage (Atbash_encrypt (setMessage
      (getEncryptedMessage (Atbash_encrypt (setMessage M Encryption_new))) Encryption_new)) = M
   \<and> getEncryptedMessage (Atbash_encrypt (setMessage M Encryption_new)) = map Atbash_encryptChar M
   \<and> (isupper c1 \<longrightarrow> Atbash_encryptChar c1 =
        int_to_char (char_to_int CHR ''Z'' - (char_to_int c1 - char_to_int CHR ''A'')))
   \<and> (islower c2 \<longrightarrow> Atbash_encryptChar c2 =
        int_to_char (char_to_int CHR ''z'' - (char_to_int c2 - char_to_int CHR ''a'')))
   \<and> (\<not> isalpha c3 \<longrightarrow> Atbash_encryptChar c3 = c3)
   \<and> Atbash_decrypt s = Atbash_encrypt s"
proof -
  have A: "char_to_int CHR ''A'' = 65" "char_to_int CHR ''Z'' = 90"
    "char_to_int CHR ''a'' = 97" "char_to_int CHR ''z'' = 122"
    by (simp_all add: char_to_int_def)
  have once: "getEncryptedMessage (Atbash_encrypt (setMessage X Encryption_new)) = map Atbash_encryptChar X" for X
    by (simp add: Atbash_encrypt_eq getEncryptedMessage_def setMessage_def Encryption_new_def)
  have "map Atbash_encryptChar (map Atbash_encryptChar M) = M"
    by (simp add: Atbash_encryptChar_involution comp_def)
  then have "getEncryptedMessage (Atbash_encrypt (setMessage
      (getEncryptedMessage (Atbash_encrypt (setMessage M Encryption_new))) Encryption_new)) = M"
    by (simp only: once)
  moreover have "isupper c1 \<longrightarrow> Atbash_encryptChar c1 =
        int_to_char (char_to_int CHR ''Z'' - (char_to_int c1 - char_to_int CHR ''A''))"
    by (simp add: Atbash_encryptChar_def A)
  moreover have "islower c2 \<longrightarrow> Atbash_encryptChar c2 =
        int_to_char (char_to_int CHR ''z'' - (char_to_int c2 - char_to_int CHR ''a''))"
    by (simp add: Atbash_encryptChar_def A isupper_def islower_def)
  moreover have "\<not> isalpha c3 \<longrightarrow> Atbash_encryptChar c3 = c3"
    by (simp add: Atbash_encryptChar_other)
  moreover have "Atbash_decrypt s = Atbash_encrypt s" by (simp add: Atbash_decrypt_def)
  ultimately show ?thesis using once by simp
qed

theorem Atbash_involution_witness:
  "isupper CHR ''H'' \<and> islower CHR ''h'' \<and> \<not> isalpha CHR ''!''
   \<and> getEncryptedMessage (Atbash_encrypt (setMessage
      (getEncryptedMessage (Atbash_encrypt (setMessage ''HELLO'' Encryption_new))) Encryption_new)) = ''HELLO''
   \<and> Atbash_encryptChar CHR ''H'' =
        int_to_char (char_to_int CHR ''Z'' - (char_to_int CHR ''H'' - char_to_int CHR ''A''))
   \<and> Atbash_encryptChar CHR ''h'' =
        int_to_char (char_to_int CHR ''z'' - (char_to_int CHR ''h'' - char_to_int CHR ''a''))
   \<and> Atbash_encryptChar CHR ''!'' = CHR ''!''"
proof -
  have h: "isupper CHR ''H''" "islower CHR ''h''" "\<not> isalpha CHR ''!''" by code_simp+
  show ?thesis
    using Atbash_involution [of "''HELLO''" "CHR ''H''" "CHR ''h''" "CHR ''!''" Encryption_new] h
    by blast
qed

section \<open>\<open>Vigenere\<close>: the empty keyword, the round trip and the keyword offsets\<close>

lemma key_at_append_char [simp]: "key_at (append_char d s) i = key_at s i"
  by (simp add: key_at_def append_char_def)

text \<open>
  A message without any alphabetic character never reaches \<open>encryptChar\<close> or
  \<open>decryptChar\<close>, so the keyword is not looked at: every character is copied.
\<close>

lemma Vigenere_encrypt_loop_no_letter:
  "\<not> list_ex isalpha cs \<Longrightarrow>
   Vigenere_encrypt_loop cs i s = Inr (s\<lparr>encrypted_message := encrypted_message s @ cs\<rparr>)"
proof (induction cs arbitrary: i s)
  case Nil
  show ?case by simp
next
  case (Cons c cs)
  from Cons.prems have c: "\<not> isalpha c" and cs: "\<not> list_ex isalpha cs" by simp_all
  from c show ?case using Cons.IH [OF cs, of "Suc i" "append_char c s"]
    by (simp add: append_char_def)
qed

lemma Vigenere_decrypt_loop_no_letter:
  "\<not> list_ex isalpha cs \<Longrightarrow>
   Vigenere_decrypt_loop cs i s = Inr (s\<lparr>encrypted_message := encrypted_message s @ cs\<rparr>)"
proof (induction cs arbitrary: i s)
  case Nil
  show ?case by simp
next
  case (Cons c cs)
  from Cons.prems have c: "\<not> isalpha c" and cs: "\<not> list_ex isalpha cs" by simp_all
  from c show ?case using Cons.IH [OF cs, of "Suc i" "append_char c s"]
    by (simp add: append_char_def)
qed

text \<open>
  Claim C4, as amended. \<open>setKeyMessage\<close> stores an empty keyword like any other and signals
  nothing. With an empty keyword, \<open>encrypt\<close> and \<open>decrypt\<close> of a message that has no
  alphabetic character return normally, and their result is the message unchanged.
\<close>

theorem Vigenere_empty_keyword:
  "messageKey (Vigenere_setKeyMessage [] s) = []
   \<and> (\<not> list_ex isalpha (message s) \<longrightarrow>
        Vigenere_encrypt (Vigenere_setKeyMessage [] s) =
          Inr (s\<lparr>encrypted_message := message s, messageKey := []\<rparr>))
   \<and> (\<not> list_ex isalpha (message s) \<longrightarrow>
        Vigenere_decrypt (Vigenere_setKeyMessage [] s) =
          Inr (s\<lparr>encrypted_message := message s, messageKey := []\<rparr>))"
  by (simp add: Vigenere_setKeyMessage_def Vigenere_encrypt_def Vigenere_decrypt_def
      Vigenere_encrypt_loop_no_letter Vigenere_decrypt_loop_no_letter)

theorem Vigenere_empty_keyword_witness:
  "\<not> list_ex isalpha (message (setMessage ''1 2'' Vigenere_new))
   \<and> messageKey (Vigenere_setKeyMessage [] (setMessage ''1 2'' Vigenere_new)) = []
   \<and> Vigenere_encrypt (Vigenere_setKeyMessage [] (setMessage ''1 2'' Vigenere_new)) =
       Inr ((setMessage ''1 2'' Vigenere_new)
         \<lparr>encrypted_message := message (setMessage ''1 2'' Vigenere_new), messageKey := []\<rparr>)
   \<and> Vigenere_decrypt (Vigenere_setKeyMessage [] (setMessage ''1 2'' Vigenere_new)) =
       Inr ((setMessage ''1 2'' Vigenere_new)
         \<lparr>encrypted_message := message (setMessage ''1 2'' Vigenere_new), messageKey := []\<rparr>)"
proof -
  have h: "\<not> list_ex isalpha (message (setMessage ''1 2'' Vigenere_new))" by code_simp
  show ?thesis
    using Vigenere_empty_keyword [of "setMessage ''1 2'' Vigenere_new"] h by blast
qed

text \<open>
  Claim C4 as stated fails: with an empty keyword the message \<open>12\<close> is encrypted, and
  decrypted, to \<open>12\<close>; nothing is signalled at configuration or at the transform.
\<close>

theorem Vigenere_empty_keyword_counterexample:
  "map_sum id getEncryptedMessage
     (Vigenere_encrypt (Vigenere_setKeyMessage [] (setMessage ''12'' Vigenere_new))) = Inr ''12''
   \<and> map_sum id getEncryptedMessage
     (Vigenere_decrypt (Vigenere_setKeyMessage [] (setMessage ''12'' Vigenere_new))) = Inr ''12''"
  by code_simp

text \<open>
  Claim C3 says that decrypting an encrypted message with the same non-empty keyword
  returns the message. \<open>encryptChar\<close> adds the keyword offset with no reduction modulo 26
  (\<open>decryptChar\<close> does reduce): with the keyword \<open>A\<close>, of offset 1, the message \<open>Z\<close> encrypts
  to \<open>[\<close>, which \<open>decrypt\<close> leaves as it is.
\<close>

theorem Vigenere_roundtrip_fails:
  "map_sum id getEncryptedMessage
     (Vigenere_encrypt (Vigenere_setKeyMessage ''A'' (setMessage ''Z'' Vigenere_new))) = Inr ''[''
   \<and> map_sum id getEncryptedMessage
     (Vigenere_decrypt (Vigenere_setKeyMessage ''A'' (setMessage ''['' Vigenere_new))) = Inr ''[''
   \<and> ''['' \<noteq> ''Z''"
  by code_simp

text \<open>
  Claim C9 says that in both directions a keyword character that is not a letter has the
  offset 0. \<open>encryptKeyChar\<close> returns 0 for it, and \<open>encrypt\<close> with the keyword \<open>1\<close> leaves
  \<open>A\<close> unchanged; \<open>decryptChar\<close> computes its shift as \<open>(letter - 'a') + 1\<close> for every
  keyword character that is not upper case, here \<open>-47\<close>, and \<open>decrypt\<close> with the keyword \<open>1\<close>
  turns \<open>A\<close> into \<open>V\<close>.
\<close>

theorem Vigenere_decrypt_nonletter_key_offset:
  "Vigenere_encryptKeyChar CHR ''1'' = 0
   \<and> map_sum id getEncryptedMessage
     (Vigenere_encrypt (Vigenere_setKeyMessage ''1'' (setMessage ''A'' Vigenere_new))) = Inr ''A''
   \<and> map_sum id getEncryptedMessage
     (Vigenere_decrypt (Vigenere_setKeyMessage ''1'' (setMessage ''A'' Vigenere_new))) = Inr ''V''"
  by code_simp

section \<open>\<open>A1Z26\<close>: \<open>decrypt\<close> never fails\<close>

lemma char_to_int_literals [simp]:
  "char_to_int CHR ''-'' = 45" "char_to_int CHR ''+'' = 43" "char_to_int CHR ''0'' = 48"
  "char_to_int CHR ''a'' = 97" "char_to_int CHR ''A'' = 65"
  by (simp_all add: char_to_int_def)

lemma isdigit_not_sign: "isdigit d \<Longrightarrow> d \<noteq> CHR ''-'' \<and> d \<noteq> CHR ''+'' \<and> \<not> isspace d"
  by (auto simp: isdigit_def isspace_def)

lemma stoi_digit1: "isdigit d \<Longrightarrow> stoi [d] = Inr (char_to_int d - 48)"
  using isdigit_not_sign [of d] by (simp add: stoi_def Let_def) (simp add: isdigit_def)

lemma stoi_digit2:
  "isdigit d1 \<Longrightarrow> isdigit d2 \<Longrightarrow> stoi [d1, d2] = Inr (10 * (char_to_int d1 - 48) + (char_to_int d2 - 48))"
  using isdigit_not_sign [of d1] by (simp add: stoi_def Let_def) (simp add: isdigit_def)

lemma stoi_digit_other:
  "isdigit d1 \<Longrightarrow> \<not> isdigit d2 \<Longrightarrow> stoi [d1, d2] = Inr (char_to_int d1 - 48)"
  using isdigit_not_sign [of d1] by (simp add: stoi_def Let_def) (simp add: isdigit_def)

lemma stoi_group:
  assumes "isdigit d" and "length r \<le> 1"
  shows "\<exists>n. stoi (d # r) = Inr n"
proof (cases r)
  case Nil
  with assms show ?thesis by (simp add: stoi_digit1)
next
  case (Cons e r')
  with assms have r: "r = [e]" by simp
  show ?thesis
  proof (cases "isdigit e")
    case True
    with assms r show ?thesis by (simp add: stoi_digit2)
  next
    case False
    with assms r show ?thesis by (simp add: stoi_digit_other)
  qed
qed

lemma substr_in_range: "i < length m \<Longrightarrow> substr m i 2 = Inr (m ! i # take 1 (drop (Suc i) m))"
proof -
  assume a: "i < length m"
  then have "drop i m = m ! i # drop (Suc i) m" by (simp add: Cons_nth_drop_Suc)
  then have "take 2 (drop i m) = m ! i # take 1 (drop (Suc i) m)"
    by (simp add: numeral_2_eq_2)
  with a show ?thesis by (simp add: substr_def)
qed

lemma message_append_char [simp]: "message (append_char c s) = message s"
  by (simp add: append_char_def)

lemma message_append_string [simp]: "message (append_string x s) = message s"
  by (simp add: append_string_def)

lemma A1Z26_decrypt_loop_total: "\<exists>s'. A1Z26_decrypt_loop i s = Inr s'"
proof (induction i s rule: A1Z26_decrypt_loop.induct)
  case (1 i s)
  show ?case
  proof (cases "i < length (message s)")
    case False
    then show ?thesis by (simp add: A1Z26_decrypt_loop.simps [of i s])
  next
    case inb: True
    show ?thesis
    proof (cases "isdigit (message s ! i)")
      case True
      have sub: "substr (message s) i 2 = Inr (message s ! i # take 1 (drop (Suc i) (message s)))"
        using inb by (rule substr_in_range)
      obtain n where n: "stoi (message s ! i # take 1 (drop (Suc i) (message s))) = Inr n"
        using stoi_group [OF True, of "take 1 (drop (Suc i) (message s))"] by auto
      from "1.IH"(1) [OF inb True sub n]
      show ?thesis using inb True sub n by (simp add: A1Z26_decrypt_loop.simps [of i s])
    next
      case nd: False
      show ?thesis
      proof (cases "isalpha (message s ! i)")
        case True
        from "1.IH"(2) [OF inb nd True]
        show ?thesis using inb nd True by (simp add: A1Z26_decrypt_loop.simps [of i s])
      next
        case False
        from "1.IH"(3) [OF inb nd False]
        show ?thesis using inb nd False by (simp add: A1Z26_decrypt_loop.simps [of i s])
      qed
    qed
  qed
qed

lemma A1Z26_decrypt_loop_end:
  "\<not> i < length (message s) \<Longrightarrow> A1Z26_decrypt_loop i s = Inr s"
  by (simp add: A1Z26_decrypt_loop.simps [of i s])

lemma A1Z26_decrypt_loop_last_digit:
  assumes "Suc i = length (message s)" and "isdigit (message s ! i)"
  shows "A1Z26_decrypt_loop i s =
    Inr (append_char (int_to_char (char_to_int CHR ''a'' + (char_to_int (message s ! i) - 48) - 1)) s)"
proof -
  from assms(1) have inb: "i < length (message s)" by simp
  from assms(1) have "drop (Suc i) (message s) = []" by simp
  with inb have sub: "substr (message s) i 2 = Inr [message s ! i]"
    by (simp add: substr_in_range)
  have "\<not> Suc (Suc i) < length (message s)" using assms(1) by simp
  then have fin: "A1Z26_decrypt_loop (Suc (Suc i)) t = Inr t" if "message t = message s" for t
    using that by (simp add: A1Z26_decrypt_loop_end)
  show ?thesis
    using inb assms(2) sub
    by (simp add: A1Z26_decrypt_loop.simps [of i s] stoi_digit1 fin)
qed

lemma A1Z26_decrypt_loop_two_digits:
  assumes "Suc i < length (message s)" and "isdigit (message s ! i)" and "isdigit (message s ! Suc i)"
  shows "A1Z26_decrypt_loop i s =
    A1Z26_decrypt_loop (i + 2)
      (append_char (int_to_char (char_to_int CHR ''a''
         + (10 * (char_to_int (message s ! i) - 48) + (char_to_int (message s ! Suc i) - 48)) - 1)) s)"
proof -
  from assms(1) have inb: "i < length (message s)" by simp
  from assms(1) have "drop (Suc i) (message s) = message s ! Suc i # drop (Suc (Suc i)) (message s)"
    by (simp add: Cons_nth_drop_Suc)
  with inb have sub: "substr (message s) i 2 = Inr [message s ! i, message s ! Suc i]"
    by (simp add: substr_in_range)
  show ?thesis
    using inb assms(2,3) sub
    by (simp add: A1Z26_decrypt_loop.simps [of i s] stoi_digit2)
qed

lemma A1Z26_decrypt_loop_digit_other:
  assumes "Suc i < length (message s)" and "isdigit (message s ! i)"
    and "\<not> isdigit (message s ! Suc i)"
  shows "A1Z26_decrypt_loop i s =
    A1Z26_decrypt_loop (i + 2)
      (append_char (int_to_char (char_to_int CHR ''a''
         + (char_to_int (message s ! i) - 48) - 1)) s)"
proof -
  from assms(1) have inb: "i < length (message s)" by simp
  from assms(1) have "drop (Suc i) (message s) = message s ! Suc i # drop (Suc (Suc i)) (message s)"
    by (simp add: Cons_nth_drop_Suc)
  with inb have sub: "substr (message s) i 2 = Inr [message s ! i, message s ! Suc i]"
    by (simp add: substr_in_range)
  show ?thesis
    using inb assms(2,3) sub
    by (simp add: A1Z26_decrypt_loop.simps [of i s] stoi_digit_other)
qed

lemma A1Z26_decrypt_loop_letter:
  assumes "i < length (message s)" and "\<not> isdigit (message s ! i)" and "isalpha (message s ! i)"
  shows "A1Z26_decrypt_loop i s =
    A1Z26_decrypt_loop (i + 1) (append_string (to_string (tolower (message s ! i) - 96)) s)"
  using assms by (simp add: A1Z26_decrypt_loop.simps [of i s])

lemma A1Z26_decrypt_loop_other:
  assumes "i < length (message s)" and "\<not> isdigit (message s ! i)" and "\<not> isalpha (message s ! i)"
  shows "A1Z26_decrypt_loop i s = A1Z26_decrypt_loop (i + 1) (append_char (message s ! i) s)"
  using assms by (simp add: A1Z26_decrypt_loop.simps [of i s])

text \<open>
  Claim C5, as amended. \<open>decrypt\<close> of \<open>A1Z26\<close> never signals an error: it returns normally
  on every message. At a digit it takes that character and the next one, if there is one,
  and moves on past both. Standing at the last character of the message, a digit \<open>d\<close>, it
  appends \<open>char('a' + d - 1)\<close> for the value of that single digit and stops. Standing at
  two digits it appends \<open>char('a' + n - 1)\<close> for their two-digit value \<open>n\<close>, whatever \<open>n\<close>
  is, and goes on two characters further. Standing at a digit \<open>d\<close> followed by a character
  that is not a digit it appends \<open>char('a' + d - 1)\<close> for the digit alone and goes on two
  characters further as well, so that the character after the digit is dropped.
\<close>

theorem A1Z26_decrypt_no_error:
  "(\<exists>s'. A1Z26_decrypt s = Inr s')
   \<and> (Suc i = length (message s) \<and> isdigit (message s ! i) \<longrightarrow>
        A1Z26_decrypt_loop i s =
          Inr (append_char (int_to_char (char_to_int CHR ''a'' + (char_to_int (message s ! i) - 48) - 1)) s))
   \<and> (Suc j < length (message t) \<and> isdigit (message t ! j) \<and> isdigit (message t ! Suc j) \<longrightarrow>
        A1Z26_decrypt_loop j t =
          A1Z26_decrypt_loop (j + 2)
            (append_char (int_to_char (char_to_int CHR ''a''
               + (10 * (char_to_int (message t ! j) - 48) + (char_to_int (message t ! Suc j) - 48)) - 1)) t))
   \<and> (Suc k < length (message u) \<and> isdigit (message u ! k) \<and> \<not> isdigit (message u ! Suc k) \<longrightarrow>
        A1Z26_decrypt_loop k u =
          A1Z26_decrypt_loop (k + 2)
            (append_char (int_to_char (char_to_int CHR ''a''
               + (char_to_int (message u ! k) - 48) - 1)) u))"
  using A1Z26_decrypt_loop_total [of 0 s] A1Z26_decrypt_loop_last_digit [of i s]
    A1Z26_decrypt_loop_two_digits [of j t] A1Z26_decrypt_loop_digit_other [of k u]
  by (simp add: A1Z26_decrypt_def)

theorem A1Z26_decrypt_no_error_witness:
  "Suc 0 = length (message (setMessage ''5'' Encryption_new))
   \<and> isdigit (message (setMessage ''5'' Encryption_new) ! 0)
   \<and> Suc 0 < length (message (setMessage ''27'' Encryption_new))
   \<and> isdigit (message (setMessage ''27'' Encryption_new) ! 0)
   \<and> isdigit (message (setMessage ''27'' Encryption_new) ! Suc 0)
   \<and> Suc 0 < length (message (setMessage ''1a'' Encryption_new))
   \<and> isdigit (message (setMessage ''1a'' Encryption_new) ! 0)
   \<and> \<not> isdigit (message (setMessage ''1a'' Encryption_new) ! Suc 0)
   \<and> (\<exists>s'. A1Z26_decrypt (setMessage ''5'' Encryption_new) = Inr s')
   \<and> A1Z26_decrypt_loop 0 (setMessage ''5'' Encryption_new) =
       Inr (append_char (int_to_char (char_to_int CHR ''a''
         + (char_to_int (message (setMessage ''5'' Encryption_new) ! 0) - 48) - 1))
           (setMessage ''5'' Encryption_new))
   \<and> A1Z26_decrypt_loop 0 (setMessage ''27'' Encryption_new) =
       A1Z26_decrypt_loop (0 + 2)
         (append_char (int_to_char (char_to_int CHR ''a''
            + (10 * (char_to_int (message (setMessage ''27'' Encryption_new) ! 0) - 48)
               + (char_to_int (message (setMessage ''27'' Encryption_new) ! Suc 0) - 48)) - 1))
           (setMessage ''27'' Encryption_new))
   \<and> A1Z26_decrypt_loop 0 (setMessage ''1a'' Encryption_new) =
       A1Z26_decrypt_loop (0 + 2)
         (append_char (int_to_char (char_to_int CHR ''a''
            + (char_to_int (message (setMessage ''1a'' Encryption_new) ! 0) - 48) - 1))
           (setMessage ''1a'' Encryption_new))
   \<and> map_sum id getEncryptedMessage (A1Z26_decrypt (setMessage ''1a'' Encryption_new)) = Inr ''a''"
proof -
  have h: "Suc 0 = length (message (setMessage ''5'' Encryption_new))"
    "isdigit (message (setMessage ''5'' Encryption_new) ! 0)"
    "Suc 0 < length (message (setMessage ''27'' Encryption_new))"
    "isdigit (message (setMessage ''27'' Encryption_new) ! 0)"
    "isdigit (message (setMessage ''27'' Encryption_new) ! Suc 0)"
    "Suc 0 < length (message (setMessage ''1a'' Encryption_new))"
    "isdigit (message (setMessage ''1a'' Encryption_new) ! 0)"
    "\<not> isdigit (message (setMessage ''1a'' Encryption_new) ! Suc 0)"
    by code_simp+
  have e: "map_sum id getEncryptedMessage (A1Z26_decrypt (setMessage ''1a'' Encryption_new)) = Inr ''a''"
    by code_simp
  show ?thesis
    using A1Z26_decrypt_no_error [of "setMessage ''5'' Encryption_new" 0 0
        "setMessage ''27'' Encryption_new" 0 "setMessage ''1a'' Encryption_new"] h e
    by blast
qed

text \<open>
  Claim C5 as stated fails: the lone digit \<open>5\<close> is decoded to \<open>e\<close>, and the groups \<open>27\<close> and
  \<open>00\<close>, outside \<open>[1, 26]\<close>, are decoded to the characters \<open>{\<close> and \<open>`\<close>; none is an error.
\<close>

theorem A1Z26_decrypt_malformed_counterexample:
  "map_sum id getEncryptedMessage (A1Z26_decrypt (setMessage ''5'' Encryption_new)) = Inr ''e''
   \<and> map_sum id getEncryptedMessage (A1Z26_decrypt (setMessage ''27'' Encryption_new)) = Inr ''{''
   \<and> map_sum id getEncryptedMessage (A1Z26_decrypt (setMessage ''00'' Encryption_new)) = Inr ''`''"
  by code_simp

section \<open>What becomes of the previous result\<close>

lemma A1Z26_encrypt_loop_prefix:
  "A1Z26_encrypt_loop cs (s\<lparr>encrypted_message := acc @ encrypted_message s\<rparr>) =
     (A1Z26_encrypt_loop cs s)\<lparr>encrypted_message := acc @ encrypted_message (A1Z26_encrypt_loop cs s)\<rparr>"
proof (induction cs arbitrary: s)
  case Nil
  show ?case by simp
next
  case (Cons c cs)
  have a: "append_char d (s\<lparr>encrypted_message := acc @ encrypted_message s\<rparr>) =
      (append_char d s)\<lparr>encrypted_message := acc @ encrypted_message (append_char d s)\<rparr>" for d
    by (simp add: append_char_def)
  have b: "append_string x (s\<lparr>encrypted_message := acc @ encrypted_message s\<rparr>) =
      (append_string x s)\<lparr>encrypted_message := acc @ encrypted_message (append_string x s)\<rparr>" for x
    by (simp add: append_string_def)
  show ?case by (simp add: a b Cons.IH)
qed

lemma A1Z26_decrypt_loop_prefix:
  "A1Z26_decrypt_loop i (s\<lparr>encrypted_message := acc @ encrypted_message s\<rparr>) =
     map_sum id (\<lambda>t. t\<lparr>encrypted_message := acc @ encrypted_message t\<rparr>) (A1Z26_decrypt_loop i s)"
proof (induction i s rule: A1Z26_decrypt_loop.induct)
  case (1 i s)
  let ?s = "s\<lparr>encrypted_message := acc @ encrypted_message s\<rparr>"
  have m: "message ?s = message s" by simp
  have a: "append_char d ?s =
      (append_char d s)\<lparr>encrypted_message := acc @ encrypted_message (append_char d s)\<rparr>" for d
    by (simp add: append_char_def)
  have b: "append_string x ?s =
      (append_string x s)\<lparr>encrypted_message := acc @ encrypted_message (append_string x s)\<rparr>" for x
    by (simp add: append_string_def)
  show ?case
  proof (cases "i < length (message s)")
    case False
    then show ?thesis
      by (simp add: A1Z26_decrypt_loop.simps [of i s] A1Z26_decrypt_loop.simps [of i ?s])
  next
    case inb: True
    show ?thesis
    proof (cases "isdigit (message s ! i)")
      case True
      have sub: "substr (message s) i 2 = Inr (message s ! i # take 1 (drop (Suc i) (message s)))"
        using inb by (rule substr_in_range)
      obtain n where n: "stoi (message s ! i # take 1 (drop (Suc i) (message s))) = Inr n"
        using stoi_group [OF True, of "take 1 (drop (Suc i) (message s))"] by auto
      from "1.IH"(1) [OF inb True sub n]
      show ?thesis using inb True sub n
        by (simp add: A1Z26_decrypt_loop.simps [of i s] A1Z26_decrypt_loop.simps [of i ?s] a)
    next
      case nd: False
      show ?thesis
      proof (cases "isalpha (message s ! i)")
        case True
        from "1.IH"(2) [OF inb nd True]
        show ?thesis using inb nd True
          by (simp add: A1Z26_decrypt_loop.simps [of i s] A1Z26_decrypt_loop.simps [of i ?s] b)
      next
        case False
        from "1.IH"(3) [OF inb nd False]
        show ?thesis using inb nd False
          by (simp add: A1Z26_decrypt_loop.simps [of i s] A1Z26_decrypt_loop.simps [of i ?s] a)
      qed
    qed
  qed
qed

lemma Caesar_encrypt_clears: "Caesar_encrypt (s\<lparr>encrypted_message := old\<rparr>) = Caesar_encrypt s"
  by (simp add: Caesar_encrypt_def)

lemma Caesar_decrypt_clears: "Caesar_decrypt (s\<lparr>encrypted_message := old\<rparr>) = Caesar_decrypt s"
  by (simp add: Caesar_decrypt_def)

lemma Vigenere_encrypt_clears: "Vigenere_encrypt (s\<lparr>encrypted_message := old\<rparr>) = Vigenere_encrypt s"
  by (simp add: Vigenere_encrypt_def)

lemma Vigenere_decrypt_clears: "Vigenere_decrypt (s\<lparr>encrypted_message := old\<rparr>) = Vigenere_decrypt s"
  by (simp add: Vigenere_decrypt_def)

lemma A1Z26_encrypt_appends:
  "getEncryptedMessage (A1Z26_encrypt (s\<lparr>encrypted_message := old\<rparr>)) =
     old @ getEncryptedMessage (A1Z26_encrypt (s\<lparr>encrypted_message := []\<rparr>))"
  using A1Z26_encrypt_loop_prefix [where cs = "message s" and s = "s\<lparr>encrypted_message := []\<rparr>" and acc = old]
  by (simp add: A1Z26_encrypt_def getEncryptedMessage_def)

lemma A1Z26_decrypt_appends:
  "map_sum id getEncryptedMessage (A1Z26_decrypt (s\<lparr>encrypted_message := old\<rparr>)) =
     map_sum id (\<lambda>t. old @ getEncryptedMessage t) (A1Z26_decrypt (s\<lparr>encrypted_message := []\<rparr>))"
  using A1Z26_decrypt_loop_prefix [where i = 0 and s = "s\<lparr>encrypted_message := []\<rparr>" and acc = old]
  by (cases "A1Z26_decrypt_loop 0 (s\<lparr>encrypted_message := []\<rparr>)")
     (simp_all add: A1Z26_decrypt_def getEncryptedMessage_def)

lemma Atbash_encrypt_appends:
  "getEncryptedMessage (Atbash_encrypt (s\<lparr>encrypted_message := old\<rparr>)) =
     old @ getEncryptedMessage (Atbash_encrypt (s\<lparr>encrypted_message := []\<rparr>))"
  by (simp add: Atbash_encrypt_eq getEncryptedMessage_def)

section \<open>\<open>A1Z26\<close>: decoding an encoded message\<close>

lemma tolower_alpha: "isalpha c \<Longrightarrow> 97 \<le> tolower c \<and> tolower c \<le> 122"
  by (auto simp: isalpha_def isupper_def islower_def tolower_def)

lemma int_to_char_48: "int_to_char 48 = CHR ''0''"
  by (simp add: char_eq_iff_promoted char_to_int_int_to_char)

lemma digit_char:
  assumes "0 \<le> a" and "a \<le> 9"
  shows "isdigit (int_to_char (48 + a))" and "char_to_int (int_to_char (48 + a)) - 48 = a"
  using assms by (simp_all add: isdigit_def char_to_int_int_to_char)

lemma digits10_small: "n < 10 \<Longrightarrow> digits10 n = [int_to_char (48 + int n)]"
  by (simp add: digits10.simps [of n])

lemma digits10_two:
  assumes "10 \<le> n" and "n < 100"
  shows "digits10 n = [int_to_char (48 + int (n div 10)), int_to_char (48 + int (n mod 10))]"
proof -
  from assms(2) have "n div 10 < 10" by simp
  then have "digits10 (n div 10) = [int_to_char (48 + int (n div 10))]" by (rule digits10_small)
  with assms(1) show ?thesis by (simp add: digits10.simps [of n])
qed

lemma two_digit_string:
  assumes "1 \<le> p" and "p \<le> 26"
  shows "(if p < 10 then CHR ''0'' # to_string p else to_string p) =
    [int_to_char (48 + p div 10), int_to_char (48 + p mod 10)]"
proof (cases "p < 10")
  case True
  with assms have "nat p < 10" by simp
  then have "digits10 (nat p) = [int_to_char (48 + int (nat p))]" by (rule digits10_small)
  with True assms show ?thesis by (simp add: to_string_def int_to_char_48)
next
  case False
  with assms have n: "10 \<le> nat p" "nat p < 100" by simp_all
  have "int (nat p div 10) = p div 10" "int (nat p mod 10) = p mod 10"
    using assms by (simp_all add: zdiv_int zmod_int)
  with digits10_two [OF n] False assms show ?thesis by (simp add: to_string_def)
qed

lemma A1Z26_encryptChar_alpha:
  assumes "isalpha c"
  shows "A1Z26_encryptChar c =
    [int_to_char (48 + (tolower c - 96) div 10), int_to_char (48 + (tolower c - 96) mod 10)]"
proof -
  from assms have t: "97 \<le> tolower c" "tolower c \<le> 122" by (simp_all add: tolower_alpha)
  then have c1: "char_to_int (int_to_char (tolower c)) = tolower c"
    by (simp add: char_to_int_int_to_char)
  from t have c2: "char_to_int (int_to_char (tolower c - 96)) = tolower c - 96"
    by (simp add: char_to_int_int_to_char)
  from t have "1 \<le> tolower c - 96" "tolower c - 96 \<le> 26" by simp_all
  then show ?thesis
    unfolding A1Z26_encryptChar_def Let_def c1 c2 by (rule two_digit_string)
qed

lemma A1Z26_encrypt_loop_alpha:
  "list_all isalpha L \<Longrightarrow>
   A1Z26_encrypt_loop L s = append_string (concat (map A1Z26_encryptChar L)) s"
proof (induction L arbitrary: s)
  case Nil
  show ?case by (simp add: append_string_def)
next
  case (Cons c L)
  then show ?case by (simp add: append_string_def)
qed

lemma A1Z26_decrypt_loop_encoded:
  "list_all isalpha L \<Longrightarrow> message s = pre @ concat (map A1Z26_encryptChar L) \<Longrightarrow>
   A1Z26_decrypt_loop (length pre) s = Inr (append_string (lowercase L) s)"
proof (induction L arbitrary: pre s)
  case Nil
  then show ?case by (simp add: A1Z26_decrypt_loop_end append_string_def lowercase_def)
next
  case (Cons c L)
  define p where "p = tolower c - 96"
  define d1 where "d1 = int_to_char (48 + p div 10)"
  define d2 where "d2 = int_to_char (48 + p mod 10)"
  from Cons.prems(1) have alpha: "isalpha c" and rest: "list_all isalpha L" by simp_all
  from alpha have p: "1 \<le> p" "p \<le> 26" using tolower_alpha [of c] by (simp_all add: p_def)
  then have q: "0 \<le> p div 10" "p div 10 \<le> 9" "0 \<le> p mod 10" "p mod 10 \<le> 9" by simp_all
  have enc: "A1Z26_encryptChar c = [d1, d2]"
    using alpha by (simp add: A1Z26_encryptChar_alpha p_def d1_def d2_def)
  have dg: "isdigit d1" "isdigit d2"
    and v: "char_to_int d1 - 48 = p div 10" "char_to_int d2 - 48 = p mod 10"
    using q by (simp_all add: d1_def d2_def digit_char)
  have msg: "message s = pre @ d1 # d2 # concat (map A1Z26_encryptChar L)"
    using Cons.prems(2) enc by simp
  then have at: "message s ! length pre = d1" "message s ! Suc (length pre) = d2"
    "Suc (length pre) < length (message s)"
    by (simp_all add: nth_append)
  have val: "10 * (char_to_int d1 - 48) + (char_to_int d2 - 48) = p"
    using v by simp
  let ?s' = "append_char (int_to_char (tolower c)) s"
  have step: "A1Z26_decrypt_loop (length pre) s = A1Z26_decrypt_loop (length pre + 2) ?s'"
    using A1Z26_decrypt_loop_two_digits [of "length pre" s] at dg val
    by (simp add: p_def)
  have "message ?s' = (pre @ [d1, d2]) @ concat (map A1Z26_encryptChar L)"
    using msg by simp
  from Cons.IH [OF rest this]
  have "A1Z26_decrypt_loop (length pre + 2) ?s' = Inr (append_string (lowercase L) ?s')"
    by simp
  with step show ?case
    by (simp add: append_string_def append_char_def lowercase_def)
qed

lemma A1Z26_decrypt_group:
  assumes "isdigit d1" and "isdigit d2"
  shows "map_sum id getEncryptedMessage (A1Z26_decrypt (setMessage [d1, d2] Encryption_new)) =
    Inr [int_to_char (char_to_int CHR ''a''
      + (10 * (char_to_int d1 - 48) + (char_to_int d2 - 48)) - 1)]"
proof -
  let ?s = "setMessage [d1, d2] Encryption_new"
  have m: "message ?s = [d1, d2]" by (simp add: setMessage_def)
  have "A1Z26_decrypt_loop 0 ?s =
    A1Z26_decrypt_loop (0 + 2)
      (append_char (int_to_char (char_to_int CHR ''a''
         + (10 * (char_to_int (message ?s ! 0) - 48) + (char_to_int (message ?s ! Suc 0) - 48)) - 1)) ?s)"
    using assms by (intro A1Z26_decrypt_loop_two_digits) (simp_all add: m)
  then show ?thesis
    by (simp add: A1Z26_decrypt_def A1Z26_decrypt_loop_end m)
      (simp add: append_char_def getEncryptedMessage_def setMessage_def Encryption_new_def)
qed

text \<open>
  Claim C6. For a message \<open>L\<close> of alphabetic characters only, decoding the encoding of \<open>L\<close>
  (each on a fresh object) gives the lower-case form of \<open>L\<close>. Every letter is encoded to
  exactly two decimal digits, the tens and the units of its position between 1 and 26, so
  with a leading zero for the positions 1 to 9; \<open>HELLO\<close> is encoded to \<open>0805121215\<close>; and
  a group of two digits of value \<open>n\<close> is decoded to \<open>'a' + n - 1\<close>.
\<close>

theorem A1Z26_roundtrip:
  assumes "list_all isalpha L" and "isalpha c" and "isdigit d1" and "isdigit d2"
  shows "map_sum id getEncryptedMessage
           (A1Z26_decrypt (setMessage
              (getEncryptedMessage (A1Z26_encrypt (setMessage L Encryption_new))) Encryption_new))
         = Inr (lowercase L)
   \<and> A1Z26_encryptChar c =
        [int_to_char (48 + (tolower c - 96) div 10), int_to_char (48 + (tolower c - 96) mod 10)]
   \<and> 1 \<le> tolower c - 96 \<and> tolower c - 96 \<le> 26
   \<and> getEncryptedMessage (A1Z26_encrypt (setMessage ''HELLO'' Encryption_new)) = ''0805121215''
   \<and> map_sum id getEncryptedMessage (A1Z26_decrypt (setMessage [d1, d2] Encryption_new)) =
        Inr [int_to_char (char_to_int CHR ''a''
          + (10 * (char_to_int d1 - 48) + (char_to_int d2 - 48)) - 1)]"
proof -
  have e: "getEncryptedMessage (A1Z26_encrypt (setMessage L Encryption_new)) =
      concat (map A1Z26_encryptChar L)"
    using assms(1)
    by (simp add: A1Z26_encrypt_def A1Z26_encrypt_loop_alpha setMessage_def Encryption_new_def
        getEncryptedMessage_def append_string_def)
  have "message (setMessage (concat (map A1Z26_encryptChar L)) Encryption_new) =
      [] @ concat (map A1Z26_encryptChar L)"
    by (simp add: setMessage_def)
  from A1Z26_decrypt_loop_encoded [OF assms(1) this]
  have 1: "map_sum id getEncryptedMessage
           (A1Z26_decrypt (setMessage
              (getEncryptedMessage (A1Z26_encrypt (setMessage L Encryption_new))) Encryption_new))
         = Inr (lowercase L)"
    unfolding e
    by (simp add: A1Z26_decrypt_def getEncryptedMessage_def append_string_def setMessage_def
        Encryption_new_def)
  have 2: "A1Z26_encryptChar c =
        [int_to_char (48 + (tolower c - 96) div 10), int_to_char (48 + (tolower c - 96) mod 10)]"
    using assms(2) by (rule A1Z26_encryptChar_alpha)
  have 3: "1 \<le> tolower c - 96" "tolower c - 96 \<le> 26"
    using tolower_alpha [OF assms(2)] by simp_all
  have 4: "getEncryptedMessage (A1Z26_encrypt (setMessage ''HELLO'' Encryption_new)) = ''0805121215''"
    by code_simp
  from 1 2 3 4 A1Z26_decrypt_group [OF assms(3,4)] show ?thesis by (intro conjI)
qed

theorem A1Z26_roundtrip_witness:
  "list_all isalpha ''Hello'' \<and> isalpha CHR ''H'' \<and> isdigit CHR ''0'' \<and> isdigit CHR ''8''
   \<and> map_sum id getEncryptedMessage
           (A1Z26_decrypt (setMessage
              (getEncryptedMessage (A1Z26_encrypt (setMessage ''Hello'' Encryption_new))) Encryption_new))
         = Inr (lowercase ''Hello'')
   \<and> lowercase ''Hello'' = ''hello''
   \<and> A1Z26_encryptChar CHR ''H'' = ''08''
   \<and> map_sum id getEncryptedMessage (A1Z26_decrypt (setMessage ''08'' Encryption_new)) = Inr ''h''"
proof -
  have h: "list_all isalpha ''Hello''" "isalpha CHR ''H''" "isdigit CHR ''0''" "isdigit CHR ''8''"
    by code_simp+
  have v: "lowercase ''Hello'' = ''hello''"
    "[int_to_char (48 + (tolower CHR ''H'' - 96) div 10),
      int_to_char (48 + (tolower CHR ''H'' - 96) mod 10)] = ''08''"
    "[int_to_char (char_to_int CHR ''a''
          + (10 * (char_to_int CHR ''0'' - 48) + (char_to_int CHR ''8'' - 48)) - 1)] = ''h''"
    by code_simp+
  from A1Z26_roundtrip [OF h] show ?thesis using h v by simp
qed

section \<open>The result after a second call\<close>

lemma Caesar_fresh:
  "(setMessage m s)\<lparr>encrypted_message := []\<rparr> = setMessage m (Caesar_new\<lparr>key := key s\<rparr>)"
  for s :: Caesar
  by (simp add: setMessage_def Caesar_new_def)

lemma Vigenere_fresh:
  "(setMessage m s)\<lparr>encrypted_message := []\<rparr> =
     setMessage m (Vigenere_setKeyMessage (messageKey s) Vigenere_new)"
  for s :: Vigenere
  by (simp add: setMessage_def Vigenere_new_def Vigenere_setKeyMessage_def)

text \<open>
  Claim C10. Take an object in any state, so with any previous result, and give it a new
  message. \<open>Caesar\<close> and \<open>Vigenere\<close> clear the result first: what \<open>getEncryptedMessage\<close>
  returns after \<open>encrypt\<close> or \<open>decrypt\<close> is what a fresh object with the same key returns for
  that message. \<open>Atbash\<close> and \<open>A1Z26\<close> never clear it: after \<open>encrypt\<close> or \<open>decrypt\<close> the result
  is the previous result followed by what a fresh object returns for that message.
\<close>

theorem result_field_clearing:
  "getEncryptedMessage (Caesar_encrypt (setMessage m c)) =
     getEncryptedMessage (Caesar_encrypt (setMessage m (Caesar_new\<lparr>key := key c\<rparr>)))
   \<and> getEncryptedMessage (Caesar_decrypt (setMessage m c)) =
     getEncryptedMessage (Caesar_decrypt (setMessage m (Caesar_new\<lparr>key := key c\<rparr>)))
   \<and> map_sum id getEncryptedMessage (Vigenere_encrypt (setMessage m v)) =
     map_sum id getEncryptedMessage
       (Vigenere_encrypt (setMessage m (Vigenere_setKeyMessage (messageKey v) Vigenere_new)))
   \<and> map_sum id getEncryptedMessage (Vigenere_decrypt (setMessage m v)) =
     map_sum id getEncryptedMessage
       (Vigenere_decrypt (setMessage m (Vigenere_setKeyMessage (messageKey v) Vigenere_new)))
   \<and> getEncryptedMessage (Atbash_encrypt (setMessage m s)) =
     getEncryptedMessage s @ getEncryptedMessage (Atbash_encrypt (setMessage m Encryption_new))
   \<and> getEncryptedMessage (Atbash_decrypt (setMessage m s)) =
     getEncryptedMessage s @ getEncryptedMessage (Atbash_decrypt (setMessage m Encryption_new))
   \<and> getEncryptedMessage (A1Z26_encrypt (setMessage m s)) =
     getEncryptedMessage s @ getEncryptedMessage (A1Z26_encrypt (setMessage m Encryption_new))
   \<and> map_sum id getEncryptedMessage (A1Z26_decrypt (setMessage m s)) =
     map_sum id (\<lambda>t. getEncryptedMessage s @ getEncryptedMessage t)
       (A1Z26_decrypt (setMessage m Encryption_new))"
proof -
  have c1: "Caesar_encrypt (setMessage m c) = Caesar_encrypt (setMessage m (Caesar_new\<lparr>key := key c\<rparr>))"
    using Caesar_encrypt_clears [where s = "setMessage m c" and old = "[]"] by (simp add: Caesar_fresh)
  have c2: "Caesar_decrypt (setMessage m c) = Caesar_decrypt (setMessage m (Caesar_new\<lparr>key := key c\<rparr>))"
    using Caesar_decrypt_clears [where s = "setMessage m c" and old = "[]"] by (simp add: Caesar_fresh)
  have v1: "Vigenere_encrypt (setMessage m v) =
      Vigenere_encrypt (setMessage m (Vigenere_setKeyMessage (messageKey v) Vigenere_new))"
    using Vigenere_encrypt_clears [where s = "setMessage m v" and old = "[]"] by (simp add: Vigenere_fresh)
  have v2: "Vigenere_decrypt (setMessage m v) =
      Vigenere_decrypt (setMessage m (Vigenere_setKeyMessage (messageKey v) Vigenere_new))"
    using Vigenere_decrypt_clears [where s = "setMessage m v" and old = "[]"] by (simp add: Vigenere_fresh)
  have old: "setMessage m s = (setMessage m s)\<lparr>encrypted_message := getEncryptedMessage s\<rparr>"
    by (simp add: setMessage_def getEncryptedMessage_def)
  have new: "(setMessage m s)\<lparr>encrypted_message := []\<rparr> = setMessage m Encryption_new"
    by (simp add: setMessage_def Encryption_new_def)
  have a1: "getEncryptedMessage (Atbash_encrypt (setMessage m s)) =
      getEncryptedMessage s @ getEncryptedMessage (Atbash_encrypt (setMessage m Encryption_new))"
    using Atbash_encrypt_appends [where s = "setMessage m s" and old = "getEncryptedMessage s"]
    by (simp only: old [symmetric] new)
  have z1: "getEncryptedMessage (A1Z26_encrypt (setMessage m s)) =
      getEncryptedMessage s @ getEncryptedMessage (A1Z26_encrypt (setMessage m Encryption_new))"
    using A1Z26_encrypt_appends [where s = "setMessage m s" and old = "getEncryptedMessage s"]
    by (simp only: old [symmetric] new)
  have z2: "map_sum id getEncryptedMessage (A1Z26_decrypt (setMessage m s)) =
     map_sum id (\<lambda>t. getEncryptedMessage s @ getEncryptedMessage t)
       (A1Z26_decrypt (setMessage m Encryption_new))"
    using A1Z26_decrypt_appends [where s = "setMessage m s" and old = "getEncryptedMessage s"]
    by (simp only: old [symmetric] new)
  show ?thesis
    using a1 z1 z2 by (simp add: c1 c2 v1 v2 Atbash_decrypt_def)
qed

theorem result_field_clearing_witness:
  "getEncryptedMessage (Atbash_encrypt (setMessage ''ab''
      (Atbash_encrypt (setMessage ''HELLO'' Encryption_new)))) = ''SVOOL'' @ ''zy''
   \<and> getEncryptedMessage (A1Z26_encrypt (setMessage ''b''
      (A1Z26_encrypt (setMessage ''a'' Encryption_new)))) = ''01'' @ ''02''
   \<and> getEncryptedMessage (Caesar_encrypt (setMessage ''ab''
      (Caesar_encrypt (setMessage ''HELLO'' (Caesar_setKey 3 Caesar_new))))) = ''de''"
proof -
  let ?c = "Caesar_encrypt (setMessage ''HELLO'' (Caesar_setKey 3 Caesar_new))"
  let ?a = "Atbash_encrypt (setMessage ''HELLO'' Encryption_new)"
  let ?z = "A1Z26_encrypt (setMessage ''a'' Encryption_new)"
  have e: "getEncryptedMessage ?a = ''SVOOL''"
    "getEncryptedMessage (Atbash_encrypt (setMessage ''ab'' Encryption_new)) = ''zy''"
    "getEncryptedMessage ?z = ''01''"
    "getEncryptedMessage (A1Z26_encrypt (setMessage ''b'' Encryption_new)) = ''02''"
    "getEncryptedMessage (Caesar_encrypt (setMessage ''ab'' (Caesar_new\<lparr>key := key ?c\<rparr>))) = ''de''"
    by code_simp+
  from result_field_clearing [of "''ab''" ?c Vigenere_new ?a]
  have 1: "getEncryptedMessage (Atbash_encrypt (setMessage ''ab'' ?a)) =
      getEncryptedMessage ?a @ getEncryptedMessage (Atbash_encrypt (setMessage ''ab'' Encryption_new))"
    and 2: "getEncryptedMessage (Caesar_encrypt (setMessage ''ab'' ?c)) =
      getEncryptedMessage (Caesar_encrypt (setMessage ''ab'' (Caesar_new\<lparr>key := key ?c\<rparr>)))"
    by blast+
  from result_field_clearing [of "''b''" Caesar_new Vigenere_new ?z]
  have 3: "getEncryptedMessage (A1Z26_encrypt (setMessage ''b'' ?z)) =
      getEncryptedMessage ?z @ getEncryptedMessage (A1Z26_encrypt (setMessage ''b'' Encryption_new))"
    by blast
  from 1 2 3 show ?thesis by (simp only: e)
qed

section \<open>The shifts on letters\<close>

text \<open>
  What the character functions compute on a letter, for any state. In \<open>Vigenere\<close> the
  forward transform adds to the character at index \<open>i\<close> the value of \<open>encryptKeyChar\<close> at
  the keyword character \<open>i mod size\<close>, the index moving on at every character of the
  message; the backward transform subtracts the same value, modulo 26, when the keyword
  character is a letter. In \<open>Caesar\<close> both directions add or subtract the key with no
  reduction.
\<close>

lemma key_at_nonempty:
  "messageKey s \<noteq> [] \<Longrightarrow> key_at s i = Inr (messageKey s ! (i mod length (messageKey s)))"
  by (simp add: key_at_def)

lemma Vigenere_encryptKeyChar_position:
  "isupper k \<Longrightarrow> Vigenere_encryptKeyChar k = char_to_int k - char_to_int CHR ''A'' + 1"
  "islower k \<Longrightarrow> Vigenere_encryptKeyChar k = char_to_int k - char_to_int CHR ''a'' + 1"
  "\<not> isalpha k \<Longrightarrow> Vigenere_encryptKeyChar k = 0"
  "0 \<le> Vigenere_encryptKeyChar k \<and> Vigenere_encryptKeyChar k \<le> 26"
  by (auto simp: Vigenere_encryptKeyChar_def isalpha_def isupper_def islower_def)

lemma Vigenere_encryptChar_shift:
  assumes "messageKey s \<noteq> []" and "isalpha c"
  shows "Vigenere_encryptChar s c i =
    Inr (int_to_char (char_to_int c
      + Vigenere_encryptKeyChar (messageKey s ! (i mod length (messageKey s)))))"
  using assms by (auto simp: Vigenere_encryptChar_def key_at_nonempty isalpha_def)

lemma Vigenere_encrypt_loop_nonempty:
  "messageKey s \<noteq> [] \<Longrightarrow>
   Vigenere_encrypt_loop cs i s =
     Inr (s\<lparr>encrypted_message := encrypted_message s @
       map2 (\<lambda>j c. if isalpha c
                    then int_to_char (char_to_int c
                      + Vigenere_encryptKeyChar (messageKey s ! (j mod length (messageKey s))))
                    else c)
         [i ..< i + length cs] cs\<rparr>)"
proof (induction cs arbitrary: i s)
  case Nil
  show ?case by simp
next
  case (Cons c cs)
  have up: "[i ..< i + length (c # cs)] = i # [Suc i ..< Suc i + length cs]"
    by (subst upt_rec) simp
  have k: "messageKey (append_char d s) \<noteq> []" for d
    using Cons.prems by (simp add: append_char_def)
  have mk: "messageKey (append_char d s) = messageKey s" for d
    by (simp add: append_char_def)
  note ih = Cons.IH [where i = "Suc i", OF k, unfolded mk]
  show ?case
  proof (cases "isalpha c")
    case True
    let ?d = "int_to_char (char_to_int c
      + Vigenere_encryptKeyChar (messageKey s ! (i mod length (messageKey s))))"
    from True Cons.prems have "Vigenere_encryptChar s c i = Inr ?d"
      by (simp add: Vigenere_encryptChar_shift)
    with True ih [of ?d] show ?thesis
      unfolding up by (simp add: append_char_def del: upt_Suc)
  next
    case False
    with ih [of c] show ?thesis
      unfolding up by (simp add: append_char_def del: upt_Suc)
  qed
qed

lemma Vigenere_decryptChar_letter_key:
  assumes "messageKey s \<noteq> []" and "isalpha (messageKey s ! (k mod length (messageKey s)))"
  shows "isupper c \<Longrightarrow> Vigenere_decryptChar s c k =
      Inr (int_to_char ((char_to_int c - char_to_int CHR ''A''
        - Vigenere_encryptKeyChar (messageKey s ! (k mod length (messageKey s)))) mod 26
        + char_to_int CHR ''A''))"
    and "islower c \<Longrightarrow> Vigenere_decryptChar s c k =
      Inr (int_to_char ((char_to_int c - char_to_int CHR ''a''
        - Vigenere_encryptKeyChar (messageKey s ! (k mod length (messageKey s)))) mod 26
        + char_to_int CHR ''a''))"
proof -
  let ?l = "messageKey s ! (k mod length (messageKey s))"
  have sh: "(if isupper ?l then char_to_int ?l - char_to_int CHR ''A''
             else char_to_int ?l - char_to_int CHR ''a'') + 1 = Vigenere_encryptKeyChar ?l"
    using assms(2) by (auto simp: Vigenere_encryptKeyChar_def isalpha_def)
  have b: "1 \<le> Vigenere_encryptKeyChar ?l" "Vigenere_encryptKeyChar ?l \<le> 26"
    using assms(2) by (auto simp: Vigenere_encryptKeyChar_def isalpha_def isupper_def islower_def)
  have r: "c_rem (x - Vigenere_encryptKeyChar ?l + 26) 26 = (x - Vigenere_encryptKeyChar ?l) mod 26"
    if "0 \<le> x" for x
  proof -
    from that b have "0 \<le> x - Vigenere_encryptKeyChar ?l + 26" by simp
    then have "c_rem (x - Vigenere_encryptKeyChar ?l + 26) 26 = (x - Vigenere_encryptKeyChar ?l + 26) mod 26"
      by (simp add: c_rem_26)
    then show ?thesis by simp
  qed
  have d: "Vigenere_decryptChar s c k =
      (if isupper c then
         Inr (int_to_char (c_rem (char_to_int c - char_to_int CHR ''A'' - Vigenere_encryptKeyChar ?l + 26) 26
           + char_to_int CHR ''A''))
       else if islower c then
         Inr (int_to_char (c_rem (char_to_int c - char_to_int CHR ''a'' - Vigenere_encryptKeyChar ?l + 26) 26
           + char_to_int CHR ''a''))
       else Inr c)"
    unfolding Vigenere_decryptChar_def key_at_nonempty [OF assms(1)] Let_def sum.case sh
    by (rule refl)
  show "Vigenere_decryptChar s c k =
      Inr (int_to_char ((char_to_int c - char_to_int CHR ''A'' - Vigenere_encryptKeyChar ?l) mod 26
        + char_to_int CHR ''A''))" if u: "isupper c"
  proof -
    from u have "0 \<le> char_to_int c - char_to_int CHR ''A''" by (simp add: isupper_def)
    from r [OF this] u show ?thesis by (simp only: d if_True)
  qed
  show "Vigenere_decryptChar s c k =
      Inr (int_to_char ((char_to_int c - char_to_int CHR ''a'' - Vigenere_encryptKeyChar ?l) mod 26
        + char_to_int CHR ''a''))" if l: "islower c"
  proof -
    from l have n: "\<not> isupper c" by (simp add: isupper_def islower_def)
    from l have "0 \<le> char_to_int c - char_to_int CHR ''a''" by (simp add: islower_def)
    from r [OF this] l n show ?thesis by (simp only: d if_True if_False)
  qed
qed

lemma Caesar_encryptChar_sum:
  "isalpha c \<Longrightarrow> Caesar_encryptChar s c = int_to_char (char_to_int c + key s)"
  by (auto simp: Caesar_encryptChar_def isalpha_def)

lemma Caesar_decryptChar_difference:
  "isalpha c \<Longrightarrow> Caesar_decryptChar s c = int_to_char (char_to_int c - key s)"
  by (auto simp: Caesar_decryptChar_def isalpha_def)

end
